theory Spec2Isabelle
  imports Main "HOL-Library.Word" "HOL-Library.Code_Target_Numeral"
begin

section \<open>The logger's file sink: \<open>RawFile\<close> of system/loggerd/logger.h\<close>

text \<open>
  \<open>RawFile\<close> owns a C stream (\<open>FILE* file\<close>) and, for a compressed sink, a libbz2
  write handle (\<open>BZFILE* bz_file\<close>). The C library, libbz2 and the helpers of
  \<open>common/util.h\<close> are outside the header; what they answer to each call is an argument of
  the model, and every call the code makes is appended to the ghost field \<open>calls\<close>.
  An \<open>assert\<close> that fails is the fatal error \<open>AssertionFailed\<close> (builds with assertions
  enabled). \<open>size_t\<close> is 64 bits wide and \<open>int\<close> 32 bits.
\<close>

type_synonym byte = "8 word"

datatype fatal = AssertionFailed

subsection \<open>Constants of bzlib.h and errno.h\<close>

definition BZ_OK :: int where "BZ_OK = 0"
definition BZ_IO_ERROR :: int where "BZ_IO_ERROR = - 6"
definition EINTR :: int where "EINTR = 4"

text \<open>libbz2 documents block size 9 as the largest and work factor 30 as its default.\<close>

definition BZ_MAX_BLOCK_SIZE_100K :: int where "BZ_MAX_BLOCK_SIZE_100K = 9"
definition BZ_DEFAULT_WORK_FACTOR :: int where "BZ_DEFAULT_WORK_FACTOR = 30"

subsection \<open>The objects behind the two pointers\<close>

record FILE =
  fname :: string
  fmode :: string
  fbytes :: "byte list"
  is_open :: bool

text \<open>
  \<open>bz_in\<close> is the input the compressor has taken in so far: what decompressing the
  finished file gives back. \<open>finished\<close> is set when the stream has been finalised.
\<close>

record BZFILE =
  blockSize100k :: int
  verbosity :: int
  workFactor :: int
  bz_in :: "byte list"
  finished :: bool

datatype call =
    Safe_fopen string string
  | BzWriteOpen int int int
  | BzWrite nat int
  | BzWriteClose int
  | Safe_fwrite nat nat
  | Safe_fflush
  | Fclose

text \<open>The member \<open>file\<close> is the field \<open>file_p\<close>.\<close>

record RawFile =
  file_p :: "FILE option"
  bz_file :: "BZFILE option"
  calls :: "call list"

subsection \<open>External calls\<close>

text \<open>
  \<open>util::safe_fopen(name, "wb")\<close>: the answer \<open>ok\<close> says whether a stream came back. Mode
  \<open>"wb"\<close> creates the file or truncates it, so the new stream holds no bytes.
\<close>

definition safe_fopen :: "bool \<Rightarrow> string \<Rightarrow> string \<Rightarrow> FILE option" where
  "safe_fopen ok name m =
     (if ok then Some \<lparr>fname = name, fmode = m, fbytes = [], is_open = True\<rparr> else None)"

text \<open>
  \<open>BZ2_bzWriteOpen(&bzerror, file, blockSize100k, verbosity, workFactor)\<close>: a handle comes
  back exactly when \<open>bzerror\<close> is \<open>BZ_OK\<close>.
\<close>

definition BZ2_bzWriteOpen :: "int \<Rightarrow> int \<Rightarrow> int \<Rightarrow> int \<Rightarrow> BZFILE option" where
  "BZ2_bzWriteOpen e bs v w =
     (if e = BZ_OK
      then Some \<lparr>blockSize100k = bs, verbosity = v, workFactor = w, bz_in = [], finished = False\<rparr>
      else None)"

text \<open>
  The answer of one \<open>BZ2_bzWrite(&bzerror, b, buf, len)\<close>: the error code \<open>bzerror\<close>, the value of
  \<open>errno\<close> after the call, and how many bytes of \<open>buf\<close> the compressor had taken in when the
  call came back. libbz2 first feeds the input to the compressor and then writes the
  compressed output with \<open>fwrite\<close>, so an I/O error is reported after input has been taken.
  With \<open>BZ_OK\<close> all \<open>len\<close> bytes have been taken.

  The answers of successive calls are independent arguments of the model. libbz2 itself
  looks at the error indicator of the C stream when a call starts: once a call has reported
  an I/O error, every later call on that handle reports \<open>BZ_IO_ERROR\<close> at once, takes
  nothing in and leaves \<open>errno\<close> as it was. The predicate \<open>sticky\<close> below says of an
  environment that it answers so.
\<close>

record bz_response =
  r_bzerror :: int
  r_errno :: int
  taken :: nat

definition BZ2_bzWrite :: "bz_response \<Rightarrow> BZFILE \<Rightarrow> byte list \<Rightarrow> int \<Rightarrow> BZFILE" where
  "BZ2_bzWrite r b buf len =
     b\<lparr>bz_in := bz_in b @
          (if r_bzerror r = BZ_OK then take (nat len) buf
           else take (min (taken r) (nat len)) buf)\<rparr>"

text \<open>The conversion of a \<open>size_t\<close> argument to the \<open>int\<close> parameter \<open>len\<close>.\<close>

definition size_t_to_int :: "nat \<Rightarrow> int" where
  "size_t_to_int n = (int n mod 2 ^ 64 + 2 ^ 31) mod 2 ^ 32 - 2 ^ 31"

text \<open>
  \<open>util::safe_fwrite(data, 1, count, file)\<close>: the helper reports how many of the \<open>count\<close>
  bytes went to the stream, never more than \<open>count\<close>; \<open>n\<close> is what the environment allows.
\<close>

definition safe_fwrite :: "nat \<Rightarrow> byte list \<Rightarrow> nat \<Rightarrow> FILE \<Rightarrow> nat \<times> FILE" where
  "safe_fwrite n data cnt f =
     (let written = min n cnt in (written, f\<lparr>fbytes := fbytes f @ take written data\<rparr>))"

text \<open>\<open>fclose(file)\<close>: the stream is gone whatever the call returns.\<close>

definition fclose :: "FILE \<Rightarrow> FILE" where
  "fclose f = f\<lparr>is_open := False\<rparr>"

text \<open>
  \<open>BZ2_bzWriteClose(&bzerror, b, abandon, NULL, NULL)\<close>: with \<open>BZ_OK\<close> the stream has been
  finalised and flushed to the C stream. libbz2 does not close the C stream.
\<close>

definition BZ2_bzWriteClose :: "int \<Rightarrow> BZFILE \<Rightarrow> BZFILE" where
  "BZ2_bzWriteClose e b = b\<lparr>finished := (e = BZ_OK)\<rparr>"

subsection \<open>\<open>RawFile::RawFile(path, use_bz2)\<close>\<close>

definition RawFile_ctor :: "bool \<Rightarrow> int \<Rightarrow> string \<Rightarrow> bool \<Rightarrow> fatal + RawFile" where
  "RawFile_ctor fopen_ok bzopen_error path use_bz2 =
     (let file_path = path @ (if use_bz2 then ''.bz2'' else '''');
          f = safe_fopen fopen_ok file_path ''wb'';
          cs = [Safe_fopen file_path ''wb'']
      in if f = None then Inl AssertionFailed
         else if use_bz2 then
           (let bz = BZ2_bzWriteOpen bzopen_error 9 0 30
            in if bzopen_error \<noteq> BZ_OK then Inl AssertionFailed
               else Inr \<lparr>file_p = f, bz_file = bz, calls = cs @ [BzWriteOpen 9 0 30]\<rparr>)
         else Inr \<lparr>file_p = f, bz_file = None, calls = cs\<rparr>)"

subsection \<open>\<open>RawFile::~RawFile()\<close>\<close>

text \<open>
  The answers are \<open>bzclose_error\<close> for \<open>BZ2_bzWriteClose\<close> and \<open>fclose_err\<close> for \<open>fclose\<close>;
  the value of \<open>util::safe_fflush\<close> is dropped by the code, so it has no argument here.
  A constructed \<open>RawFile\<close> has a stream; with \<open>file = nullptr\<close> the uncompressed branch
  would pass a null pointer to \<open>fclose\<close>, which the model reports as fatal.
\<close>

definition RawFile_dtor :: "int \<Rightarrow> int \<Rightarrow> RawFile \<Rightarrow> fatal + RawFile" where
  "RawFile_dtor bzclose_error fclose_err rf =
     (case bz_file rf of
        Some b \<Rightarrow>
          (let b' = BZ2_bzWriteClose bzclose_error b;
               cs = calls rf @ [BzWriteClose 0]
           in if bzclose_error \<noteq> BZ_OK then Inl AssertionFailed
              else Inr (rf\<lparr>bz_file := Some b', calls := cs\<rparr>))
      | None \<Rightarrow>
          (case file_p rf of
             None \<Rightarrow> Inl AssertionFailed
           | Some f \<Rightarrow>
               (let cs = calls rf @ [Safe_fflush, Fclose]
                in if fclose_err \<noteq> 0 then Inl AssertionFailed
                   else Inr (rf\<lparr>file_p := Some (fclose f), calls := cs\<rparr>))))"

subsection \<open>\<open>RawFile::write(data, size)\<close>\<close>

text \<open>
  The loop of the compressed branch. \<open>env i\<close> answers the \<open>i\<close>-th call of \<open>BZ2_bzWrite\<close>
  of this write; the loop may go on for ever, so it is a partial function. It returns the
  final \<open>written\<close>, the number of calls made and the handle's state, with the calls logged.
\<close>

definition count :: nat where "count = 1"

partial_function (option) bz_write_loop ::
  "(nat \<Rightarrow> bz_response) \<Rightarrow> byte list \<Rightarrow> nat \<Rightarrow> nat \<Rightarrow> nat \<Rightarrow> BZFILE \<Rightarrow> call list
     \<Rightarrow> (nat \<times> nat \<times> BZFILE \<times> call list) option" where
  "bz_write_loop env data sz i written b cs =
     (if written < sz then
        (let r = env i;
             off = written * count;
             len = size_t_to_int (count * (sz - written));
             b' = BZ2_bzWrite r b (drop off data) len;
             cs' = cs @ [BzWrite off len]
         in if r_bzerror r = BZ_IO_ERROR \<and> r_errno r = EINTR
            then bz_write_loop env data sz (i + 1) written b' cs'
            else if r_bzerror r \<noteq> BZ_OK
            then Some (written, i + 1, b', cs')
            else bz_write_loop env data sz (i + 1) sz b' cs')
      else Some (written, i, b, cs))"

declare bz_write_loop.simps [code]

text \<open>
  \<open>data\<close> is the buffer and \<open>sz\<close> (the parameter \<open>size\<close>) its length. The value
  \<open>None\<close> says that the call never returns. \<open>fw\<close> is what \<open>util::safe_fwrite\<close> allows
  in the uncompressed branch.
\<close>

definition RawFile_write ::
  "(nat \<Rightarrow> bz_response) \<Rightarrow> nat \<Rightarrow> RawFile \<Rightarrow> byte list \<Rightarrow> (fatal + RawFile) option" where
  "RawFile_write env fw rf data =
     (let sz = length data in
      case bz_file rf of
        Some b \<Rightarrow>
          (case bz_write_loop env data sz 0 0 b (calls rf) of
             None \<Rightarrow> None
           | Some (written, n, b', cs) \<Rightarrow>
               if written = sz
               then Some (Inr (rf\<lparr>bz_file := Some b', calls := cs\<rparr>))
               else Some (Inl AssertionFailed))
      | None \<Rightarrow>
          (case file_p rf of
             None \<Rightarrow> Some (Inl AssertionFailed)
           | Some f \<Rightarrow>
               (let (written, f') = safe_fwrite fw data sz f;
                    cs = calls rf @ [Safe_fwrite 1 sz]
                in if written = sz
                   then Some (Inr (rf\<lparr>file_p := Some f', calls := cs\<rparr>))
                   else Some (Inl AssertionFailed))))"

text \<open>The retry condition of the loop, and what a compressed sink has taken in.\<close>

definition interrupted :: "bz_response \<Rightarrow> bool" where
  "interrupted r = (r_bzerror r = BZ_IO_ERROR \<and> r_errno r = EINTR)"


definition bz_stream :: "RawFile \<Rightarrow> byte list" where
  "bz_stream rf = (case bz_file rf of Some b \<Rightarrow> bz_in b | None \<Rightarrow> [])"

text \<open>
  Inputs for the examples: a compressed and an uncompressed sink as the constructor
  leaves them, and an environment that interrupts the first \<open>n\<close> calls, each after \<open>k\<close>
  bytes were taken in, and then accepts.
\<close>

definition bz_sink :: RawFile where
  "bz_sink =
     \<lparr>file_p = Some \<lparr>fname = ''rlog.bz2'', fmode = ''wb'', fbytes = [], is_open = True\<rparr>,
      bz_file = Some \<lparr>blockSize100k = 9, verbosity = 0, workFactor = 30, bz_in = [],
                       finished = False\<rparr>,
      calls = [Safe_fopen ''rlog.bz2'' ''wb'', BzWriteOpen 9 0 30]\<rparr>"

definition raw_sink :: RawFile where
  "raw_sink =
     \<lparr>file_p = Some \<lparr>fname = ''qlog'', fmode = ''wb'', fbytes = [], is_open = True\<rparr>,
      bz_file = None,
      calls = [Safe_fopen ''qlog'' ''wb'']\<rparr>"

definition eintr_then :: "nat \<Rightarrow> nat \<Rightarrow> int \<Rightarrow> nat \<Rightarrow> bz_response" where
  "eintr_then n k e i =
     (if i < n then \<lparr>r_bzerror = BZ_IO_ERROR, r_errno = EINTR, taken = k\<rparr>
      else \<lparr>r_bzerror = e, r_errno = 0, taken = 0\<rparr>)"

text \<open>
  The first call is interrupted after \<open>k\<close> bytes were taken in; the stream keeps its
  error, so every later call fails at once.
\<close>

definition eintr_sticky :: "nat \<Rightarrow> nat \<Rightarrow> bz_response" where
  "eintr_sticky k i =
     \<lparr>r_bzerror = BZ_IO_ERROR, r_errno = EINTR, taken = (if i = 0 then k else 0)\<rparr>"

definition eintr_forever :: "nat \<Rightarrow> bz_response" where
  "eintr_forever i = \<lparr>r_bzerror = BZ_IO_ERROR, r_errno = EINTR, taken = 0\<rparr>"

section \<open>The route manager: \<open>LoggerState\<close>\<close>

text \<open>
  The header declares the members of \<open>LoggerState\<close> with their initial values and defines
  \<open>segment\<close> and \<open>setExitSignal\<close>; the constructor, the destructor, \<open>next\<close> and the
  three-argument \<open>write\<close> are only declared there (they live in logger.cc).

  A sink is seen here as the sequence of frames its \<open>write\<close> has accepted, one frame for
  each buffer; \<open>rlog\<close> and \<open>qlog\<close> are \<open>None\<close> for a null pointer. \<open>part\<close> and
  \<open>exit_signal\<close> are C++ \<open>int\<close>s. The member \<open>segment_path\<close> is left out: the naming of
  segment directories plays no part below. \<open>open_segs\<close> (the segments this instance has
  opened and not closed) and \<open>disk\<close> (what is on the file system) are ghost fields.
\<close>

datatype SentinelType = END_OF_SEGMENT | END_OF_ROUTE | START_OF_SEGMENT | START_OF_ROUTE

datatype frame = Sentinel SentinelType int | Payload "byte list"

record world =
  files :: "string set"
  closed_segs :: "(int \<times> frame list \<times> frame list) list"

record LoggerState =
  part :: int
  exit_signal :: int
  route_path :: string
  route_name :: string
  lock_file :: string
  init_data :: "byte list"
  rlog :: "frame list option"
  qlog :: "frame list option"
  open_segs :: "int list"
  disk :: world

text \<open>The default member initialisers: \<open>int part = -1, exit_signal = 0\<close>, null pointers.\<close>

definition LoggerState_members :: "world \<Rightarrow> LoggerState" where
  "LoggerState_members w =
     \<lparr>part = - 1, exit_signal = 0, route_path = [], route_name = [], lock_file = [],
      init_data = [], rlog = None, qlog = None, open_segs = [], disk = w\<rparr>"

definition LoggerState_segment :: "LoggerState \<Rightarrow> int" where
  "LoggerState_segment s = part s"

definition LoggerState_setExitSignal :: "int \<Rightarrow> LoggerState \<Rightarrow> LoggerState" where
  "LoggerState_setExitSignal signal s = s\<lparr>exit_signal := signal\<rparr>"

text \<open>
  Modelled from the spec: the Sentinel Codec's \<open>encode(kind, exit_code)\<close> (absent from
  the header). The exit code is meaningful only for end-of-route and is 0 otherwise.
\<close>

definition encode :: "SentinelType \<Rightarrow> int \<Rightarrow> frame" where
  "encode kind exit_code = Sentinel kind (if kind = END_OF_ROUTE then exit_code else 0)"

text \<open>
  Modelled from the spec: \<open>Segment.open\<close> (absent from the header) opens the full-log and
  the quick-log sink and writes the start-of-segment sentinel, then the initialisation
  payload, to both. The result is the pair (full log, quick log).
\<close>

definition Segment_open :: "byte list \<Rightarrow> frame list \<times> frame list" where
  "Segment_open init_payload =
     ([encode START_OF_SEGMENT 0, Payload init_payload],
      [encode START_OF_SEGMENT 0, Payload init_payload])"

text \<open>
  Modelled from the spec: \<open>Segment.close\<close> (absent from the header) writes the closing
  sentinel to both sinks before they are torn down.
\<close>

definition Segment_close :: "frame \<Rightarrow> frame list \<times> frame list \<Rightarrow> frame list \<times> frame list" where
  "Segment_close sentinel sinks = (fst sinks @ [sentinel], snd sinks @ [sentinel])"

text \<open>
  Modelled from the spec: the constructor \<open>LoggerState::LoggerState\<close> (declared in the
  header, defined in logger.cc). It names the route, creates the lock file
  \<open><log_root>/<route_name>.lock\<close>, keeps the initialisation payload and opens segment 0
  with the start-of-route sentinel ahead of it. \<open>ok\<close> says whether the environment lets
  construction through; any failure is fatal (\<open>Inl\<close>, with the file system as it is left).
\<close>

definition LoggerState_ctor ::
  "bool \<Rightarrow> string \<Rightarrow> string \<Rightarrow> byte list \<Rightarrow> world \<Rightarrow> world + LoggerState" where
  "LoggerState_ctor ok log_root name payload w =
     (if \<not> ok then Inl w
      else
        (let rp = log_root @ ''/'' @ name;
             lf = rp @ ''.lock'';
             sinks = Segment_open payload
         in Inr ((LoggerState_members w)
              \<lparr>part := 0, route_path := rp, route_name := name, lock_file := lf,
               init_data := payload,
               rlog := Some (encode START_OF_ROUTE 0 # fst sinks),
               qlog := Some (encode START_OF_ROUTE 0 # snd sinks),
               open_segs := [0],
               disk := w\<lparr>files := insert lf (files w)\<rparr>\<rparr>)))"

text \<open>
  Modelled from the spec: \<open>LoggerState::write(data, size, in_qlog)\<close> (declared in the
  header, defined in logger.cc) always writes the buffer to the full-log sink and writes it
  to the quick-log sink as well iff \<open>in_qlog\<close>. A sink's write is all or nothing: \<open>ok\<close>
  says whether it goes through, and a failure is fatal. The spec asks the caller for a
  non-empty buffer; nothing here depends on it.
\<close>

definition LoggerState_write ::
  "bool \<Rightarrow> byte list \<Rightarrow> bool \<Rightarrow> LoggerState \<Rightarrow> world + LoggerState" where
  "LoggerState_write ok data in_qlog s =
     (case (rlog s, qlog s) of
        (Some r, Some q) \<Rightarrow>
          if \<not> ok then Inl (disk s)
          else Inr (s\<lparr>rlog := Some (r @ [Payload data]),
                      qlog := Some (if in_qlog then q @ [Payload data] else q)\<rparr>)
      | _ \<Rightarrow> Inl (disk s))"

text \<open>
  Modelled from the spec: \<open>LoggerState::next()\<close> (declared in the header, defined in
  logger.cc) closes the current segment with an end-of-segment sentinel, increments the
  segment index and opens the new segment with the cached initialisation payload. \<open>ok\<close>
  is its success; on failure the instance is unusable.
\<close>

definition LoggerState_next :: "bool \<Rightarrow> LoggerState \<Rightarrow> world + LoggerState" where
  "LoggerState_next ok s =
     (case (rlog s, qlog s) of
        (Some r, Some q) \<Rightarrow>
          if \<not> ok then Inl (disk s)
          else
            (let closed = Segment_close (encode END_OF_SEGMENT 0) (r, q);
                 k = part s + 1;
                 sinks = Segment_open (init_data s)
             in Inr (s\<lparr>part := k, rlog := Some (fst sinks), qlog := Some (snd sinks),
                        open_segs := remove1 (part s) (open_segs s) @ [k],
                        disk := (disk s)\<lparr>closed_segs :=
                          closed_segs (disk s) @ [(part s, fst closed, snd closed)]\<rparr>\<rparr>))
      | _ \<Rightarrow> Inl (disk s))"

text \<open>
  Modelled from the spec: the destructor \<open>LoggerState::~LoggerState\<close> (declared in the
  header, defined in logger.cc) closes the current segment with an end-of-route sentinel
  carrying the recorded exit signal and, only after that has succeeded, deletes the lock
  file. \<open>close_ok\<close> says whether the close succeeds; if not, the lock file stays. The
  result is the file system left behind: \<open>Inr\<close> after a clean teardown, \<open>Inl\<close> after a
  fatal one.
\<close>

definition LoggerState_dtor :: "bool \<Rightarrow> LoggerState \<Rightarrow> world + world" where
  "LoggerState_dtor close_ok s =
     (case (rlog s, qlog s) of
        (Some r, Some q) \<Rightarrow>
          if \<not> close_ok then Inl (disk s)
          else
            (let closed = Segment_close (encode END_OF_ROUTE (exit_signal s)) (r, q)
             in Inr ((disk s)\<lparr>closed_segs :=
                         closed_segs (disk s) @ [(part s, fst closed, snd closed)],
                       files := files (disk s) - {lock_file s}\<rparr>))
      | _ \<Rightarrow> Inl (disk s))"

text \<open>
  The caller's side: a route's life is a sequence of operations on the instance, each
  with the environment's answer. \<open>run\<close> stops at the first fatal failure.
\<close>

datatype op = Write bool "byte list" bool | Next bool | SetExitSignal int

fun step :: "op \<Rightarrow> LoggerState \<Rightarrow> world + LoggerState" where
  "step (Write ok data in_qlog) s = LoggerState_write ok data in_qlog s"
| "step (Next ok) s = LoggerState_next ok s"
| "step (SetExitSignal signal) s = Inr (LoggerState_setExitSignal signal s)"

fun run :: "op list \<Rightarrow> LoggerState \<Rightarrow> world + LoggerState" where
  "run [] s = Inr s"
| "run (x # xs) s = (case step x s of Inl w \<Rightarrow> Inl w | Inr s' \<Rightarrow> run xs s')"

fun is_next :: "op \<Rightarrow> bool" where
  "is_next (Next ok) = True"
| "is_next x = False"

text \<open>
  What a caller reading \<open>segment()\<close> sees: the index before each call of \<open>next\<close> that
  succeeds, and the index at the end.
\<close>

fun segments_seen :: "op list \<Rightarrow> LoggerState \<Rightarrow> int list" where
  "segments_seen [] s = [LoggerState_segment s]"
| "segments_seen (x # xs) s =
     (case step x s of
        Inl w \<Rightarrow> [LoggerState_segment s]
      | Inr s' \<Rightarrow>
          (if is_next x then LoggerState_segment s # segments_seen xs s'
           else segments_seen xs s'))"

text \<open>The frames of a sink that lie behind its first \<open>n\<close>.\<close>

definition frames_after :: "nat \<Rightarrow> frame list option \<Rightarrow> frame list" where
  "frames_after n sink = (case sink of Some fs \<Rightarrow> drop n fs | None \<Rightarrow> [])"


text \<open>A route is active while it holds both sinks.\<close>

definition active :: "LoggerState \<Rightarrow> bool" where
  "active s = (rlog s \<noteq> None \<and> qlog s \<noteq> None)"

text \<open>
  Inputs for the examples: an empty file system and the route that the constructor
  makes of it for the root \<open>/data\<close>, the route name \<open>r1\<close> and the payload \<open>[7]\<close>.
\<close>

definition world0 :: world where
  "world0 = \<lparr>files = {}, closed_segs = []\<rparr>"

definition route0 :: LoggerState where
  "route0 =
     \<lparr>part = 0, exit_signal = 0, route_path = ''/data/r1'', route_name = ''r1'',
      lock_file = ''/data/r1.lock'', init_data = [7],
      rlog = Some [Sentinel START_OF_ROUTE 0, Sentinel START_OF_SEGMENT 0, Payload [7]],
      qlog = Some [Sentinel START_OF_ROUTE 0, Sentinel START_OF_SEGMENT 0, Payload [7]],
      open_segs = [0],
      disk = \<lparr>files = {''/data/r1.lock''}, closed_segs = []\<rparr>\<rparr>"

section \<open>Properties of the file sink\<close>

lemma loop_exit: "\<not> written < sz \<Longrightarrow> bz_write_loop env data sz i written b cs = Some (written, i, b, cs)"
  by (subst bz_write_loop.simps) simp

lemma loop_retry:
  "written < sz \<Longrightarrow> interrupted (env i) \<Longrightarrow>
   bz_write_loop env data sz i written b cs =
   bz_write_loop env data sz (i + 1) written
     (BZ2_bzWrite (env i) b (drop (written * count) data) (size_t_to_int (count * (sz - written))))
     (cs @ [BzWrite (written * count) (size_t_to_int (count * (sz - written)))])"
  by (subst bz_write_loop.simps) (simp add: interrupted_def Let_def)

lemma loop_forever_aux:
  assumes "bz_write_loop env data sz i written b cs = Some y"
  shows "\<not> ((\<forall>k. interrupted (env k)) \<and> written < sz)"
proof (rule bz_write_loop.raw_induct
    [where P = "\<lambda>env data sz i written b cs y. \<not> ((\<forall>k. interrupted (env k)) \<and> written < sz)",
      OF _ assms])
  fix f env data sz i written b cs y
  assume IH: "\<And>env data sz i written b cs y. f env data sz i written b cs = Some y \<Longrightarrow>
            \<not> ((\<forall>k. interrupted (env k)) \<and> written < sz)"
    and body: "(if written < sz
      then let r = env i; off = written * count;
               len = size_t_to_int (count * (sz - written));
               b' = BZ2_bzWrite r b (drop off data) len;
               cs' = cs @ [BzWrite off len]
           in if r_bzerror r = BZ_IO_ERROR \<and> r_errno r = EINTR
              then f env data sz (i + 1) written b' cs'
              else if r_bzerror r \<noteq> BZ_OK
                   then Some (written, i + 1, b', cs')
                   else f env data sz (i + 1) sz b' cs'
      else Some (written, i, b, cs)) = Some y"
  show "\<not> ((\<forall>k. interrupted (env k)) \<and> written < sz)"
  proof
    assume a: "(\<forall>k. interrupted (env k)) \<and> written < sz"
    then have "interrupted (env i)" by blast
    with a body have "f env data sz (i + 1) written
        (BZ2_bzWrite (env i) b (drop (written * count) data) (size_t_to_int (count * (sz - written))))
        (cs @ [BzWrite (written * count) (size_t_to_int (count * (sz - written)))]) = Some y"
      by (simp add: interrupted_def Let_def)
    from IH [OF this] a show False by blast
  qed
qed


lemma interrupted_not_ok: "interrupted r \<Longrightarrow> r_bzerror r \<noteq> BZ_OK"
  by (simp add: interrupted_def BZ_IO_ERROR_def BZ_OK_def)

lemma loop_retry_n:
  "written < sz \<Longrightarrow> \<forall>j<n. interrupted (env (i + j)) \<Longrightarrow>
   bz_write_loop env data sz i written b cs =
   bz_write_loop env data sz (i + n) written
     (b\<lparr>bz_in := bz_in b @ concat (map (\<lambda>j. take (min (taken (env j))
            (nat (size_t_to_int (count * (sz - written))))) (drop (written * count) data)) [i..<i + n])\<rparr>)
     (cs @ replicate n (BzWrite (written * count) (size_t_to_int (count * (sz - written)))))"
proof (induction n arbitrary: i b cs)
  case 0
  then show ?case by simp
next
  case (Suc n)
  from Suc.prems(2) have i0: "interrupted (env i)"
    by (metis add.right_neutral zero_less_Suc)
  from Suc.prems(2) have rest: "\<forall>j<n. interrupted (env (i + 1 + j))"
    by (metis Suc_less_eq add.assoc plus_1_eq_Suc)
  let ?len = "size_t_to_int (count * (sz - written))"
  let ?off = "written * count"
  let ?b1 = "BZ2_bzWrite (env i) b (drop ?off data) ?len"
  let ?cs1 = "cs @ [BzWrite ?off ?len]"
  have "bz_write_loop env data sz i written b cs =
        bz_write_loop env data sz (i + 1) written ?b1 ?cs1"
    using Suc.prems(1) i0 by (rule loop_retry)
  also have "\<dots> = bz_write_loop env data sz (i + 1 + n) written
     (?b1\<lparr>bz_in := bz_in ?b1 @ concat (map (\<lambda>j. take (min (taken (env j)) (nat ?len))
         (drop ?off data)) [i + 1..<i + 1 + n])\<rparr>)
     (?cs1 @ replicate n (BzWrite ?off ?len))"
    using Suc.prems(1) rest by (rule Suc.IH)
  finally have step: "bz_write_loop env data sz i written b cs =
     bz_write_loop env data sz (i + 1 + n) written
     (?b1\<lparr>bz_in := bz_in ?b1 @ concat (map (\<lambda>j. take (min (taken (env j)) (nat ?len))
         (drop ?off data)) [i + 1..<i + 1 + n])\<rparr>)
     (?cs1 @ replicate n (BzWrite ?off ?len))" .
  have idx: "i + 1 + n = i + Suc n"
    by simp
  have b_eq: "?b1\<lparr>bz_in := bz_in ?b1 @ concat (map (\<lambda>j. take (min (taken (env j)) (nat ?len))
         (drop ?off data)) [i + 1..<i + Suc n])\<rparr> =
       b\<lparr>bz_in := bz_in b @ concat (map (\<lambda>j. take (min (taken (env j)) (nat ?len))
         (drop ?off data)) [i..<i + Suc n])\<rparr>"
    using interrupted_not_ok [OF i0]
    by (simp add: BZ2_bzWrite_def upt_conv_Cons del: upt_Suc)
  have cs_eq: "?cs1 @ replicate n (BzWrite ?off ?len) = cs @ replicate (Suc n) (BzWrite ?off ?len)"
    by simp
  from step [unfolded idx] show ?case
    unfolding b_eq cs_eq .
qed

lemma loop_ok:
  "written < sz \<Longrightarrow> r_bzerror (env i) = BZ_OK \<Longrightarrow>
   bz_write_loop env data sz i written b cs =
   Some (sz, i + 1,
     b\<lparr>bz_in := bz_in b @ take (nat (size_t_to_int (count * (sz - written)))) (drop (written * count) data)\<rparr>,
     cs @ [BzWrite (written * count) (size_t_to_int (count * (sz - written)))])"
  by (subst bz_write_loop.simps)
     (simp add: Let_def loop_exit BZ2_bzWrite_def BZ_IO_ERROR_def BZ_OK_def)

lemma loop_break:
  "written < sz \<Longrightarrow> \<not> interrupted (env i) \<Longrightarrow> r_bzerror (env i) \<noteq> BZ_OK \<Longrightarrow>
   \<exists>b' cs'. bz_write_loop env data sz i written b cs = Some (written, i + 1, b', cs')"
  by (subst bz_write_loop.simps) (auto simp add: Let_def interrupted_def)


lemma loop_forever:
  "(\<forall>k. interrupted (env k)) \<Longrightarrow> written < sz \<Longrightarrow>
   bz_write_loop env data sz i written b cs = None"
  using loop_forever_aux [of env data sz i written b cs] by (cases "bz_write_loop env data sz i written b cs") auto

lemma ctor_bz_sink: "RawFile_ctor True BZ_OK ''rlog'' True = Inr bz_sink"
  by (simp add: RawFile_ctor_def safe_fopen_def BZ2_bzWriteOpen_def bz_sink_def Let_def)

lemma ctor_raw_sink: "RawFile_ctor True e ''qlog'' False = Inr raw_sink"
  by (simp add: RawFile_ctor_def safe_fopen_def raw_sink_def Let_def)

lemma RawFile_write_bz:
  "bz_file rf = Some b \<Longrightarrow>
   bz_write_loop env data (length data) 0 0 b (calls rf) = Some (w, k, b', cs) \<Longrightarrow>
   RawFile_write env fw rf data =
     (if w = length data then Some (Inr (rf\<lparr>bz_file := Some b', calls := cs\<rparr>))
      else Some (Inl AssertionFailed))"
  by (simp add: RawFile_write_def Let_def)




text \<open>
  What the retries submit: after the first call was interrupted with two bytes taken in,
  the second call is made with the same offset 0 and the same length 3, since \<open>written\<close>
  is still 0.
\<close>

lemma retry_resubmits_from_start:
  "bz_write_loop (eintr_sticky 2) [1, 2, 3] 3 0 0
     \<lparr>blockSize100k = 9, verbosity = 0, workFactor = 30, bz_in = [], finished = False\<rparr> [] =
   bz_write_loop (eintr_sticky 2) [1, 2, 3] 3 2 0
     \<lparr>blockSize100k = 9, verbosity = 0, workFactor = 30, bz_in = [1, 2], finished = False\<rparr>
     [BzWrite 0 3, BzWrite 0 3]"
  apply (subst bz_write_loop.simps)
  apply (simp add: eintr_sticky_def BZ2_bzWrite_def BZ_IO_ERROR_def BZ_OK_def EINTR_def count_def
      size_t_to_int_def)
  apply (subst bz_write_loop.simps)
  apply (simp add: eintr_sticky_def BZ2_bzWrite_def BZ_IO_ERROR_def BZ_OK_def EINTR_def count_def
      size_t_to_int_def)
  apply (simp add: numeral_2_eq_2)
  done

text \<open>
  The length on its way to \<open>BZ2_bzWrite\<close>: a buffer of \<open>2 ^ 32\<close> bytes arrives with the
  \<open>int\<close> length 0. Without any interruption nothing is taken in and the write returns
  normally.
\<close>

lemma write_length_narrowed:
  "map_option (map_sum id bz_stream)
     (RawFile_write (eintr_then 0 0 BZ_OK) 0 bz_sink (replicate (2 ^ 32) 0)) = Some (Inr [])"
proof -
  let ?b = "\<lparr>blockSize100k = 9, verbosity = 0, workFactor = 30, bz_in = [], finished = False\<rparr>"
  have bz: "bz_file bz_sink = Some ?b"
    by (simp add: bz_sink_def)
  have "bz_write_loop (eintr_then 0 0 BZ_OK) (replicate (2 ^ 32) 0)
          (length (replicate (2 ^ 32) (0 :: byte))) 0 0 ?b (calls bz_sink) =
        Some (2 ^ 32, 1, ?b, calls bz_sink @ [BzWrite 0 0])"
    unfolding length_replicate
    apply (subst bz_write_loop.simps)
    apply (simp add: eintr_then_def BZ2_bzWrite_def BZ_IO_ERROR_def BZ_OK_def EINTR_def count_def
        size_t_to_int_def)
    apply (subst bz_write_loop.simps)
    apply simp
    done
  from RawFile_write_bz [OF bz this, of 0] show ?thesis
    by (simp add: bz_stream_def bz_sink_def)
qed

text \<open>
  C2. In the compressed branch, with a non-empty buffer: while the compressor answers
  \<open>BZ_IO_ERROR\<close> with \<open>errno = EINTR\<close> the call is repeated, for ever if it always does
  (the write never returns); any other answer that is not \<open>BZ_OK\<close> ends the loop and the
  assertion on the written count fails; an answer \<open>BZ_OK\<close> makes the write return
  normally; and the write returns normally exactly when the loop ends with \<open>written\<close>
  equal to the size of the buffer.
\<close>

theorem write_bz_retry_or_fatal:
  assumes bz: "bz_file rf = Some b" and ne: "data \<noteq> []"
  shows "((\<forall>k. interrupted (env k)) \<longrightarrow> RawFile_write env fw rf data = None)
       \<and> ((\<forall>j<n. interrupted (env j)) \<and> \<not> interrupted (env n) \<and> r_bzerror (env n) \<noteq> BZ_OK \<longrightarrow>
            RawFile_write env fw rf data = Some (Inl AssertionFailed))
       \<and> ((\<forall>j<n. interrupted (env j)) \<and> r_bzerror (env n) = BZ_OK \<longrightarrow>
            (\<exists>rf'. RawFile_write env fw rf data = Some (Inr rf')))
       \<and> ((\<exists>rf'. RawFile_write env fw rf data = Some (Inr rf')) \<longleftrightarrow>
            (\<exists>k b' cs. bz_write_loop env data (length data) 0 0 b (calls rf) =
                         Some (length data, k, b', cs)))"
proof (intro conjI impI)
  have pos: "0 < length data" using ne by simp
  {
    assume "\<forall>k. interrupted (env k)"
    then have "bz_write_loop env data (length data) 0 0 b (calls rf) = None"
      using pos by (rule loop_forever)
    then show "RawFile_write env fw rf data = None"
      using bz by (simp add: RawFile_write_def)
  }
  {
    assume a: "(\<forall>j<n. interrupted (env j)) \<and> \<not> interrupted (env n) \<and> r_bzerror (env n) \<noteq> BZ_OK"
    then have "\<forall>j<n. interrupted (env (0 + j))" by simp
    from loop_retry_n [OF pos this, of data b "calls rf"] loop_break [OF pos, of env "0 + n" data] a
    obtain b' cs' where "bz_write_loop env data (length data) 0 0 b (calls rf) =
        Some (0, 0 + n + 1, b', cs')"
      by (metis add.left_neutral)
    from RawFile_write_bz [OF bz this] pos
    show "RawFile_write env fw rf data = Some (Inl AssertionFailed)"
      by simp
  }
  {
    assume a: "(\<forall>j<n. interrupted (env j)) \<and> r_bzerror (env n) = BZ_OK"
    then have "\<forall>j<n. interrupted (env (0 + j))" by simp
    from loop_retry_n [OF pos this, of data b "calls rf"] loop_ok [OF pos, of env "0 + n" data] a
    obtain b' cs' where "bz_write_loop env data (length data) 0 0 b (calls rf) =
        Some (length data, 0 + n + 1, b', cs')"
      by (metis add.left_neutral)
    from RawFile_write_bz [OF bz this]
    show "\<exists>rf'. RawFile_write env fw rf data = Some (Inr rf')"
      by simp
  }
  show "(\<exists>rf'. RawFile_write env fw rf data = Some (Inr rf')) \<longleftrightarrow>
        (\<exists>k b' cs. bz_write_loop env data (length data) 0 0 b (calls rf) =
                     Some (length data, k, b', cs))"
    using bz by (auto simp: RawFile_write_def Let_def split: option.splits if_splits)
qed

text \<open>C2 at concrete inputs: interrupted for ever, an I/O error other than EINTR, success.\<close>

theorem write_bz_retry_or_fatal_witness:
  "RawFile_write eintr_forever 0 bz_sink [1] = None
   \<and> RawFile_write (eintr_then 2 0 BZ_IO_ERROR) 0 bz_sink [1] = Some (Inl AssertionFailed)
   \<and> map_option isl (RawFile_write (eintr_then 2 0 BZ_OK) 0 bz_sink [1]) = Some False"
proof -
  have h1: "bz_file bz_sink = Some \<lparr>blockSize100k = 9, verbosity = 0, workFactor = 30,
      bz_in = [], finished = False\<rparr>"
    by (simp add: bz_sink_def)
  have h2: "[1 :: byte] \<noteq> []" by simp
  have a: "\<forall>k. interrupted (eintr_forever k)"
    by (simp add: interrupted_def eintr_forever_def)
  have b: "(\<forall>j<2. interrupted (eintr_then 2 0 BZ_IO_ERROR j))
      \<and> \<not> interrupted (eintr_then 2 0 BZ_IO_ERROR 2) \<and> r_bzerror (eintr_then 2 0 BZ_IO_ERROR 2) \<noteq> BZ_OK"
    by (simp add: interrupted_def eintr_then_def EINTR_def BZ_IO_ERROR_def BZ_OK_def)
  have c: "(\<forall>j<2. interrupted (eintr_then 2 0 BZ_OK j)) \<and> r_bzerror (eintr_then 2 0 BZ_OK 2) = BZ_OK"
    by (simp add: interrupted_def eintr_then_def)
  from write_bz_retry_or_fatal [OF h1 h2, where env = eintr_forever and fw = 0] a
  have 1: "RawFile_write eintr_forever 0 bz_sink [1] = None" by blast
  from write_bz_retry_or_fatal [OF h1 h2, where env = "eintr_then 2 0 BZ_IO_ERROR" and fw = 0 and n = 2] b
  have 2: "RawFile_write (eintr_then 2 0 BZ_IO_ERROR) 0 bz_sink [1] = Some (Inl AssertionFailed)"
    by blast
  from write_bz_retry_or_fatal [OF h1 h2, where env = "eintr_then 2 0 BZ_OK" and fw = 0 and n = 2] c
  obtain rf' where "RawFile_write (eintr_then 2 0 BZ_OK) 0 bz_sink [1] = Some (Inr rf')"
    by blast
  with 1 2 show ?thesis by simp
qed

text \<open>
  C3. In the uncompressed branch the write makes one call of \<open>util::safe_fwrite\<close> for the
  whole buffer. If that call takes all bytes the write returns with the buffer appended to
  the stream; if it takes fewer the assertion fails. There is no other outcome.
\<close>

theorem write_raw_single_call:
  assumes "bz_file rf = None" and "file_p rf = Some f"
  shows "RawFile_write env fw rf data =
     (if length data \<le> fw
      then Some (Inr (rf\<lparr>file_p := Some (f\<lparr>fbytes := fbytes f @ data\<rparr>),
                         calls := calls rf @ [Safe_fwrite 1 (length data)]\<rparr>))
      else Some (Inl AssertionFailed))"
  using assms by (auto simp: RawFile_write_def safe_fwrite_def Let_def min_def)

text \<open>C3 at concrete inputs: a full write and a short write of three bytes.\<close>

theorem write_raw_single_call_witness:
  "bz_file raw_sink = None
   \<and> map_option (map_sum id (\<lambda>rf. (map_option fbytes (file_p rf), calls rf)))
       (RawFile_write eintr_forever 3 raw_sink [1, 2, 3]) =
       Some (Inr (Some [1, 2, 3], [Safe_fopen ''qlog'' ''wb'', Safe_fwrite 1 3]))
   \<and> RawFile_write eintr_forever 2 raw_sink [1, 2, 3] = Some (Inl AssertionFailed)"
proof -
  have h1: "bz_file raw_sink = None"
    by (simp add: raw_sink_def)
  have h2: "file_p raw_sink = Some \<lparr>fname = ''qlog'', fmode = ''wb'', fbytes = [], is_open = True\<rparr>"
    by (simp add: raw_sink_def)
  show ?thesis
    using write_raw_single_call [OF h1 h2, of eintr_forever 3 "[1, 2, 3]"]
      write_raw_single_call [OF h1 h2, of eintr_forever 2 "[1, 2, 3]"] h1
    by (simp add: raw_sink_def)
qed

text \<open>
  C10. A write of size 0 returns normally on every constructed sink and leaves the stream
  and the compressor as they were: the compressed branch makes no call at all (the loop is
  not entered), the uncompressed branch makes one \<open>safe_fwrite\<close> call of zero bytes, whose
  result 0 satisfies the assertion.
\<close>

theorem write_empty_noop:
  assumes "file_p rf = Some f"
  shows "RawFile_write env fw rf [] =
     Some (Inr (rf\<lparr>calls := calls rf @ (if bz_file rf = None then [Safe_fwrite 1 0] else [])\<rparr>))"
proof (cases "bz_file rf")
  case None
  have "rf\<lparr>file_p := Some f\<rparr> = rf"
    using assms by simp
  with None assms show ?thesis
    by (simp add: RawFile_write_def safe_fwrite_def)
next
  case (Some b)
  have "rf\<lparr>bz_file := Some b\<rparr> = rf"
    using Some by simp
  with Some show ?thesis
    by (simp add: RawFile_write_def loop_exit)
qed

text \<open>C10 at the compressed and at the uncompressed sink.\<close>

theorem write_empty_noop_witness:
  "RawFile_write eintr_forever 0 bz_sink [] = Some (Inr bz_sink)
   \<and> RawFile_write eintr_forever 0 raw_sink [] =
       Some (Inr (raw_sink\<lparr>calls := [Safe_fopen ''qlog'' ''wb'', Safe_fwrite 1 0]\<rparr>))"
proof -
  have h1: "file_p bz_sink = Some \<lparr>fname = ''rlog.bz2'', fmode = ''wb'', fbytes = [], is_open = True\<rparr>"
    by (simp add: bz_sink_def)
  have h2: "file_p raw_sink = Some \<lparr>fname = ''qlog'', fmode = ''wb'', fbytes = [], is_open = True\<rparr>"
    by (simp add: raw_sink_def)
  show ?thesis
    using write_empty_noop [OF h1, of eintr_forever 0] write_empty_noop [OF h2, of eintr_forever 0]
    by (simp add: bz_sink_def raw_sink_def)
qed

text \<open>
  C4. On a compressed sink as the constructor leaves it, the destructor finalises the
  compression stream and makes no other call: the C stream stays open. The destructor of
  an uncompressed sink flushes and then closes it.
\<close>

theorem dtor_bz_leaves_file_open:
  "RawFile_ctor True BZ_OK ''rlog'' True = Inr bz_sink
   \<and> RawFile_ctor True BZ_OK ''qlog'' False = Inr raw_sink
   \<and> map_sum id (\<lambda>rf. (map_option is_open (file_p rf), map_option finished (bz_file rf), calls rf))
     (RawFile_dtor BZ_OK 0 bz_sink) =
     Inr (Some True, Some True, [Safe_fopen ''rlog.bz2'' ''wb'', BzWriteOpen 9 0 30, BzWriteClose 0])
   \<and> map_sum id (\<lambda>rf. (map_option is_open (file_p rf), calls rf)) (RawFile_dtor BZ_OK 0 raw_sink) =
     Inr (Some False, [Safe_fopen ''qlog'' ''wb'', Safe_fflush, Fclose])"
  using ctor_bz_sink ctor_raw_sink [of BZ_OK]
  by (simp add: RawFile_dtor_def bz_sink_def raw_sink_def BZ2_bzWriteClose_def fclose_def)

text \<open>
  C5. With \<open>use_bz2\<close> the constructor opens \<open>path\<close> with the suffix \<open>.bz2\<close>, a name other
  than \<open>path\<close>, in mode \<open>"wb"\<close>, and opens the compressor with block size 9 (the
  largest) and work factor 30 (the default); without it the constructor opens exactly
  \<open>path\<close> and no compressor. A failed open is fatal.
\<close>

theorem ctor_opens_named_file:
  "RawFile_ctor ok e path True =
     (if ok \<and> e = BZ_OK
      then Inr \<lparr>file_p = Some \<lparr>fname = path @ ''.bz2'', fmode = ''wb'', fbytes = [], is_open = True\<rparr>,
                bz_file = Some \<lparr>blockSize100k = BZ_MAX_BLOCK_SIZE_100K, verbosity = 0,
                                 workFactor = BZ_DEFAULT_WORK_FACTOR, bz_in = [], finished = False\<rparr>,
                calls = [Safe_fopen (path @ ''.bz2'') ''wb'',
                         BzWriteOpen BZ_MAX_BLOCK_SIZE_100K 0 BZ_DEFAULT_WORK_FACTOR]\<rparr>
      else Inl AssertionFailed)
   \<and> path @ ''.bz2'' \<noteq> path
   \<and> RawFile_ctor ok e path False =
     (if ok
      then Inr \<lparr>file_p = Some \<lparr>fname = path, fmode = ''wb'', fbytes = [], is_open = True\<rparr>,
                bz_file = None, calls = [Safe_fopen path ''wb'']\<rparr>
      else Inl AssertionFailed)"
  by (simp add: RawFile_ctor_def safe_fopen_def BZ2_bzWriteOpen_def Let_def
      BZ_MAX_BLOCK_SIZE_100K_def BZ_DEFAULT_WORK_FACTOR_def)

section \<open>Properties of the route manager\<close>

lemma setExitSignal_fold:
  "exit_signal (fold LoggerState_setExitSignal codes s) =
     (if codes = [] then exit_signal s else last codes)"
  by (induction codes arbitrary: s) (auto simp: LoggerState_setExitSignal_def)

text \<open>
  C8. After any number of calls of \<open>setExitSignal\<close> on a fresh instance the recorded exit
  signal is the value of the last call, and 0, the member's initial value, if there was no
  call.
\<close>

theorem exit_signal_last_wins:
  "exit_signal (fold LoggerState_setExitSignal codes (LoggerState_members w)) =
     (if codes = [] then 0 else last codes)"
  by (simp add: setExitSignal_fold LoggerState_members_def)

lemma ctor_props:
  "LoggerState_ctor ok root name payload w = Inr s0 \<Longrightarrow>
   active s0 \<and> part s0 = 0 \<and> open_segs s0 = [0] \<and> lock_file s0 \<in> files (disk s0) \<and> exit_signal s0 = 0"
  by (auto simp: LoggerState_ctor_def LoggerState_members_def active_def Let_def split: if_splits)

lemma step_inv:
  "step x s = Inr s' \<Longrightarrow> active s \<Longrightarrow> open_segs s = [part s] \<Longrightarrow>
   active s' \<and> open_segs s' = [part s'] \<and> lock_file s' = lock_file s
   \<and> files (disk s') = files (disk s)
   \<and> part s' = (if is_next x then part s + 1 else part s)"
  by (cases x)
     (auto simp: LoggerState_write_def LoggerState_next_def LoggerState_setExitSignal_def
       active_def Let_def Segment_open_def split: option.splits if_splits)

lemma step_fail:
  "step x s = Inl w \<Longrightarrow> w = disk s"
  by (cases x)
     (auto simp: LoggerState_write_def LoggerState_next_def 
        Let_def split: option.splits if_splits)

lemma run_inv:
  "run xs s = Inr s' \<Longrightarrow> active s \<Longrightarrow> open_segs s = [part s] \<Longrightarrow>
   active s' \<and> open_segs s' = [part s'] \<and> lock_file s' = lock_file s
   \<and> files (disk s') = files (disk s)
   \<and> part s' = part s + int (length (filter is_next xs))
   \<and> segments_seen xs s = map (\<lambda>i. part s + int i) [0..<Suc (length (filter is_next xs))]"
proof (induction xs arbitrary: s)
  case Nil
  then show ?case by (simp add: LoggerState_segment_def)
next
  case (Cons x xs)
  from Cons.prems(1) obtain s1 where s1: "step x s = Inr s1" and r: "run xs s1 = Inr s'"
    by (auto split: sum.splits)
  from step_inv [OF s1 Cons.prems(2,3)]
  have inv1: "active s1" "open_segs s1 = [part s1]" "lock_file s1 = lock_file s"
    "files (disk s1) = files (disk s)" "part s1 = (if is_next x then part s + 1 else part s)"
    by simp_all
  from Cons.IH [OF r inv1(1,2)]
  have ih: "active s'" "open_segs s' = [part s']" "lock_file s' = lock_file s1"
    "files (disk s') = files (disk s1)" "part s' = part s1 + int (length (filter is_next xs))"
    "segments_seen xs s1 = map (\<lambda>i. part s1 + int i) [0..<Suc (length (filter is_next xs))]"
    by simp_all
  have seen: "segments_seen (x # xs) s = map (\<lambda>i. part s + int i) [0..<Suc (length (filter is_next (x # xs)))]"
  proof (cases "is_next x")
    case True
    have "map (\<lambda>i. part s + int i) [0..<Suc (Suc (length (filter is_next xs)))] =
          part s # map (\<lambda>i. part s + 1 + int i) [0..<Suc (length (filter is_next xs))]"
      by (simp add: upt_conv_Cons map_Suc_upt [symmetric] del: upt_Suc)
    with True s1 ih(6) inv1(5) show ?thesis
      by (simp add: LoggerState_segment_def del: upt_Suc)
  next
    case False
    with s1 ih(6) inv1(5) show ?thesis
      by (simp del: upt_Suc)
  qed
  from ih inv1 seen show ?case by auto
qed

lemma run_fail:
  "run xs s = Inl w \<Longrightarrow> active s \<Longrightarrow> open_segs s = [part s] \<Longrightarrow> files w = files (disk s)"
proof (induction xs arbitrary: s)
  case Nil
  then show ?case by simp
next
  case (Cons x xs)
  show ?case
  proof (cases "step x s")
    case (Inl w')
    with Cons.prems(1) step_fail [OF Inl] show ?thesis by simp
  next
    case (Inr s1)
    with Cons.prems(1) have r: "run xs s1 = Inl w" by simp
    from step_inv [OF Inr Cons.prems(2,3)] Cons.IH [OF r] show ?thesis by simp
  qed
qed


lemma ctor_route0: "LoggerState_ctor True ''/data'' ''r1'' [7] world0 = Inr route0"
  by (simp add: LoggerState_ctor_def LoggerState_members_def Segment_open_def encode_def
      world0_def route0_def Let_def)

text \<open>
  C6. From construction on, after any operations that succeeded, the lock file exists; a
  teardown whose segment close succeeds leaves the file system without it; a teardown
  whose segment close fails leaves it in place; and so does any fatal failure of an
  operation before teardown. It is deleted nowhere but at the end of a successful teardown.
\<close>

theorem lock_file_lifetime:
  assumes ctor: "LoggerState_ctor ok root name payload w = Inr s0"
  shows "(run xs s0 = Inr s \<longrightarrow>
            lock_file s \<in> files (disk s)
          \<and> (\<exists>w1. LoggerState_dtor True s = Inr w1 \<and> lock_file s \<notin> files w1)
          \<and> (\<exists>w2. LoggerState_dtor False s = Inl w2 \<and> lock_file s \<in> files w2))
       \<and> (run xs s0 = Inl w' \<longrightarrow> lock_file s0 \<in> files w')"
proof (intro conjI impI)
  from ctor_props [OF ctor]
  have s0: "active s0" "open_segs s0 = [part s0]" "lock_file s0 \<in> files (disk s0)"
    by simp_all
  {
    assume r: "run xs s0 = Inr s"
    from run_inv [OF r s0(1,2)] s0(3)
    have inv: "active s" "lock_file s \<in> files (disk s)"
      by simp_all
    then obtain rl ql where sinks: "rlog s = Some rl" "qlog s = Some ql"
      by (auto simp: active_def)
    show "lock_file s \<in> files (disk s)" by (rule inv(2))
    show "\<exists>w1. LoggerState_dtor True s = Inr w1 \<and> lock_file s \<notin> files w1"
      using sinks by (simp add: LoggerState_dtor_def Let_def)
    show "\<exists>w2. LoggerState_dtor False s = Inl w2 \<and> lock_file s \<in> files w2"
      using sinks inv(2) by (simp add: LoggerState_dtor_def)
  }
  {
    assume "run xs s0 = Inl w'"
    from run_fail [OF this s0(1,2)] s0(3)
    show "lock_file s0 \<in> files w'" by simp
  }
qed

lemma run_route0:
  "run [Write True [1, 2, 3] True, Next True, SetExitSignal 15, Write True [4] False] route0 =
   Inr \<lparr>part = 1, exit_signal = 15, route_path = ''/data/r1'', route_name = ''r1'',
      lock_file = ''/data/r1.lock'', init_data = [7],
      rlog = Some [Sentinel START_OF_SEGMENT 0, Payload [7], Payload [4]],
      qlog = Some [Sentinel START_OF_SEGMENT 0, Payload [7]],
      open_segs = [1],
      disk = \<lparr>files = {''/data/r1.lock''}, closed_segs =
        [(0, [Sentinel START_OF_ROUTE 0, Sentinel START_OF_SEGMENT 0, Payload [7], Payload [1, 2, 3],
              Sentinel END_OF_SEGMENT 0],
             [Sentinel START_OF_ROUTE 0, Sentinel START_OF_SEGMENT 0, Payload [7], Payload [1, 2, 3],
              Sentinel END_OF_SEGMENT 0])]\<rparr>\<rparr>"
  by (simp add: route0_def LoggerState_write_def LoggerState_next_def LoggerState_setExitSignal_def
      Segment_open_def Segment_close_def encode_def Let_def)

lemma run_route0_fail:
  "run [Write True [1, 2, 3] True, Next False] route0 =
   Inl \<lparr>files = {''/data/r1.lock''}, closed_segs = []\<rparr>"
  by (simp add: route0_def LoggerState_write_def LoggerState_next_def)


text \<open>C6 at a concrete route: a run that succeeds, torn down both ways, and a run that fails.\<close>

theorem lock_file_lifetime_witness:
  "LoggerState_ctor True ''/data'' ''r1'' [7] world0 = Inr route0
   \<and> map_sum files (\<lambda>s. (lock_file s, files (disk s),
         map_sum files files (LoggerState_dtor True s),
         map_sum files files (LoggerState_dtor False s)))
       (run [Write True [1, 2, 3] True, Next True, SetExitSignal 15, Write True [4] False] route0) =
       Inr (''/data/r1.lock'', {''/data/r1.lock''}, Inr {}, Inl {''/data/r1.lock''})
   \<and> map_sum files lock_file (run [Write True [1, 2, 3] True, Next False] route0) =
       Inl {''/data/r1.lock''}"
proof -
  note t = lock_file_lifetime [OF ctor_route0]
  let ?xs = "[Write True [1, 2, 3] True, Next True, SetExitSignal 15, Write True [4] False]"
  obtain s where r: "run ?xs route0 = Inr s" and lf: "lock_file s = ''/data/r1.lock''"
    and fs: "files (disk s) = {''/data/r1.lock''}"
    using run_route0 by simp
  from t [of ?xs s] r obtain w1 w2 where
    1: "lock_file s \<in> files (disk s)"
    and 2: "LoggerState_dtor True s = Inr w1" "lock_file s \<notin> files w1"
    and 3: "LoggerState_dtor False s = Inl w2" "lock_file s \<in> files w2"
    by blast
  have w1: "files w1 = {}"
    using 2 r fs lf run_route0 by (auto simp: LoggerState_dtor_def Let_def)
  have w2: "files w2 = {''/data/r1.lock''}"
    using 3 r fs lf run_route0 by (auto simp: LoggerState_dtor_def Let_def)
  from t [of "[Write True [1, 2, 3] True, Next False]" _ "\<lparr>files = {''/data/r1.lock''}, closed_segs = []\<rparr>"]
    run_route0_fail
  have 4: "lock_file route0 \<in> files \<lparr>files = {''/data/r1.lock''}, closed_segs = []\<rparr>"
    by blast
  show ?thesis
    using ctor_route0 r lf fs 2(1) 3(1) w1 w2 4 run_route0_fail by simp
qed

text \<open>
  C7. The indices \<open>segment()\<close> shows over a route's life are \<open>0, 1, 2, \<dots>\<close>, one more after
  each successful \<open>next\<close>, without gap or repetition, and the instance has exactly one
  segment open: the current one.
\<close>

theorem segment_indices_contiguous:
  assumes ctor: "LoggerState_ctor ok root name payload w = Inr s0"
    and r: "run xs s0 = Inr s"
  shows "segments_seen xs s0 = map int [0..<Suc (length (filter is_next xs))]
       \<and> LoggerState_segment s = int (length (filter is_next xs))
       \<and> open_segs s = [LoggerState_segment s]"
proof -
  from ctor_props [OF ctor]
  have s0: "active s0" "open_segs s0 = [part s0]" "part s0 = 0"
    by simp_all
  from run_inv [OF r s0(1,2)] s0(3) show ?thesis
    by (simp add: LoggerState_segment_def del: upt_Suc)
qed

text \<open>C7 at a concrete route with two calls of \<open>next\<close>.\<close>

theorem segment_indices_contiguous_witness:
  "LoggerState_ctor True ''/data'' ''r1'' [7] world0 = Inr route0
   \<and> isl (run [Next True, Write True [4] False, Next True] route0) = False
   \<and> segments_seen [Next True, Write True [4] False, Next True] route0 = [0, 1, 2]
   \<and> map_sum files (\<lambda>s. (LoggerState_segment s, open_segs s))
       (run [Next True, Write True [4] False, Next True] route0) = Inr (2, [2])"
proof -
  let ?xs = "[Next True, Write True [4] False, Next True]"
  have "\<exists>s. run ?xs route0 = Inr s"
    by (simp add: route0_def LoggerState_write_def LoggerState_next_def
      Segment_open_def Segment_close_def encode_def Let_def)
  then obtain s where r: "run ?xs route0 = Inr s" ..
  from segment_indices_contiguous [OF ctor_route0 r]
  have "segments_seen ?xs route0 = map int [0..<3]" "LoggerState_segment s = 2"
    "open_segs s = [LoggerState_segment s]"
    by (simp_all add: eval_nat_numeral)
  then show ?thesis
    using ctor_route0 r by (simp add: upt_rec)
qed

lemma run_writes:
  "rlog s = Some r \<Longrightarrow> qlog s = Some q \<Longrightarrow>
   run (map (\<lambda>(d, f). Write True d f) ws) s =
     Inr (s\<lparr>rlog := Some (r @ map (Payload \<circ> fst) ws),
             qlog := Some (q @ map (Payload \<circ> fst) (filter snd ws))\<rparr>)"
proof (induction ws arbitrary: s r q)
  case Nil
  then show ?case by simp
next
  case (Cons x ws)
  obtain d f where x: "x = (d, f)" by (cases x)
  let ?s1 = "s\<lparr>rlog := Some (r @ [Payload d]),
                qlog := Some (if f then q @ [Payload d] else q)\<rparr>"
  have st: "step (Write True d f) s = Inr ?s1"
    using Cons.prems by (simp add: LoggerState_write_def)
  have "run (map (\<lambda>(d, f). Write True d f) ws) ?s1 =
     Inr (?s1\<lparr>rlog := Some ((r @ [Payload d]) @ map (Payload \<circ> fst) ws),
             qlog := Some ((if f then q @ [Payload d] else q) @ map (Payload \<circ> fst) (filter snd ws))\<rparr>)"
    by (rule Cons.IH) simp_all
  with st x show ?case by simp
qed

text \<open>
  C9. On an active route, \<open>write\<close> appends the buffer to the full log for either value of
  \<open>in_qlog\<close> and to the quick log exactly when \<open>in_qlog\<close> holds. Over a sequence of
  writes the full log gains all buffers in the order of the calls and the quick log gains
  the flagged ones in that same order.
\<close>

theorem write_routes_to_sinks:
  assumes "rlog s = Some r" and "qlog s = Some q"
  shows "LoggerState_write True data in_qlog s =
           Inr (s\<lparr>rlog := Some (r @ [Payload data]),
                   qlog := Some (if in_qlog then q @ [Payload data] else q)\<rparr>)
       \<and> run (map (\<lambda>(d, f). Write True d f) ws) s =
           Inr (s\<lparr>rlog := Some (r @ map (Payload \<circ> fst) ws),
                   qlog := Some (q @ map (Payload \<circ> fst) (filter snd ws))\<rparr>)"
  using assms run_writes [OF assms] by (simp add: LoggerState_write_def)

text \<open>C9 at a concrete route: three writes, the second one for the full log only.\<close>

theorem write_routes_to_sinks_witness:
  "map_sum files (\<lambda>s. (frames_after 3 (rlog s), frames_after 3 (qlog s)))
     (run (map (\<lambda>(d, f). Write True d f) [([1], True), ([2], False), ([3], True)]) route0) =
     Inr ([Payload [1], Payload [2], Payload [3]], [Payload [1], Payload [3]])"
proof -
  have h1: "rlog route0 = Some [Sentinel START_OF_ROUTE 0, Sentinel START_OF_SEGMENT 0, Payload [7]]"
    and h2: "qlog route0 = Some [Sentinel START_OF_ROUTE 0, Sentinel START_OF_SEGMENT 0, Payload [7]]"
    by (simp_all add: route0_def)
  let ?ws = "[([1], True), ([2], False), ([3], True)] :: (byte list \<times> bool) list"
  let ?init = "[Sentinel START_OF_ROUTE 0, Sentinel START_OF_SEGMENT 0, Payload [7]]"
  have r: "run (map (\<lambda>(d, f). Write True d f) ?ws) route0 =
       Inr (route0\<lparr>rlog := Some (?init @ map (Payload \<circ> fst) ?ws),
                     qlog := Some (?init @ map (Payload \<circ> fst) (filter snd ?ws))\<rparr>)"
    using write_routes_to_sinks [OF h1 h2, of "[1]" True ?ws] by (rule conjunct2)
  show ?thesis
    unfolding r by (simp add: frames_after_def)
qed

end
